theory Spec2Isabelle
  imports Complex_Main "HOL-Library.Char_ord" "HOL-Library.List_Lexorder"
begin

section \<open>Text primitives of the Python source\<close>

text \<open>
  A Python \<open>str\<close> is modelled as a \<open>string\<close> whose characters are the code points
  below 256. On that range the character classes used by the source are:
  \<^item> whitespace (\<open>str.strip()\<close>, \<open>str.split()\<close>, the regex classes \<open>\s\<close> and \<open>\S\<close>):
    code points 9 to 13, 28 to 32, 133 and 160;
  \<^item> \<open>[A-Z]\<close>: code points 65 to 90;
  \<^item> \<open>\d\<close>: code points 48 to 57.
\<close>

datatype py_error = IndexError | ValueError

definition is_space :: "char \<Rightarrow> bool" where
  "is_space c =
     (let n = (of_char c :: nat)
      in (9 \<le> n \<and> n \<le> 13) \<or> (28 \<le> n \<and> n \<le> 32) \<or> n = 133 \<or> n = 160)"

definition is_upper :: "char \<Rightarrow> bool" where
  "is_upper c = (let n = (of_char c :: nat) in 65 \<le> n \<and> n \<le> 90)"

definition is_digit :: "char \<Rightarrow> bool" where
  "is_digit c = (let n = (of_char c :: nat) in 48 \<le> n \<and> n \<le> 57)"

text \<open>\<open>line.startswith(">")\<close>\<close>

fun startswith_gt :: "string \<Rightarrow> bool" where
  "startswith_gt [] = False"
| "startswith_gt (c # cs) = (c = CHR ''>'')"

text \<open>\<open>line.rstrip("\n")\<close>: every trailing newline is removed.\<close>

definition rstrip_newline :: "string \<Rightarrow> string" where
  "rstrip_newline s = rev (dropWhile (\<lambda>c. c = CHR 0x0A) (rev s))"

text \<open>\<open>s.strip()\<close>: whitespace is removed at both ends.\<close>

definition strip :: "string \<Rightarrow> string" where
  "strip s = rev (dropWhile is_space (rev (dropWhile is_space s)))"

text \<open>
  \<open>s.split()\<close>: the maximal runs of non-whitespace characters, in order. The first
  argument is the token being read.
\<close>

fun split_from :: "string \<Rightarrow> string \<Rightarrow> string list" where
  "split_from cur [] = (if cur = [] then [] else [cur])"
| "split_from cur (c # cs) =
     (if is_space c
      then (if cur = [] then split_from [] cs else cur # split_from [] cs)
      else split_from (cur @ [c]) cs)"

definition split :: "string \<Rightarrow> string list" where
  "split s = split_from [] s"

subsection \<open>The identifier pattern\<close>

text \<open>
  \<open>re.compile(r"([A-Z]{1,3}_\d+(?:\.\d+)?)")\<close>. \<open>refseq_tail\<close> matches what follows the
  letters: an underscore, one or more digits (greedy), and, when a dot followed by a
  digit comes next, the dot and the digits after it. \<open>refseq_at\<close> matches at the start
  of its argument, trying three letters, then two, then one, as the greedy \<open>{1,3}\<close>
  does. \<open>refseq_search\<close> is \<open>pat.search\<close>: the match at the leftmost position that
  has one.
\<close>

definition refseq_tail :: "string \<Rightarrow> string option" where
  "refseq_tail s =
     (case s of
        [] \<Rightarrow> None
      | c # r \<Rightarrow>
          if c \<noteq> CHR ''_'' \<or> takeWhile is_digit r = [] then None
          else
            (let ds = takeWhile is_digit r; r' = dropWhile is_digit r
             in case r' of
                  [] \<Rightarrow> Some (c # ds)
                | d # r'' \<Rightarrow>
                    if d = CHR ''.'' \<and> takeWhile is_digit r'' \<noteq> []
                    then Some (c # ds @ d # takeWhile is_digit r'')
                    else Some (c # ds)))"

definition refseq_letters :: "nat \<Rightarrow> string \<Rightarrow> string option" where
  "refseq_letters n s =
     (if n \<le> length s \<and> list_all is_upper (take n s)
      then map_option (\<lambda>t. take n s @ t) (refseq_tail (drop n s))
      else None)"

definition refseq_at :: "string \<Rightarrow> string option" where
  "refseq_at s =
     (case refseq_letters 3 s of
        Some m \<Rightarrow> Some m
      | None \<Rightarrow>
          (case refseq_letters 2 s of
             Some m \<Rightarrow> Some m
           | None \<Rightarrow> refseq_letters 1 s))"

fun refseq_search :: "string \<Rightarrow> string option" where
  "refseq_search [] = None"
| "refseq_search (c # cs) =
     (case refseq_at (c # cs) of
        Some m \<Rightarrow> Some m
      | None \<Rightarrow> refseq_search cs)"

subsection \<open>The failure-message pattern\<close>

text \<open>
  \<open>re.search(r"Invalid uid\s+(\S+)", msg)\<close>, returning group 1. At a position
  the pattern matches when the text \<open>Invalid uid\<close> is followed by at least one
  whitespace character and, after all the whitespace, by at least one other character;
  the group is the maximal run of non-whitespace characters found there.
\<close>

definition invalid_uid_at :: "string \<Rightarrow> string option" where
  "invalid_uid_at s =
     (if take 11 s = ''Invalid uid''
      then
        (let r = drop 11 s; r' = dropWhile is_space r;
             tok = takeWhile (\<lambda>c. \<not> is_space c) r'
         in if takeWhile is_space r = [] \<or> tok = [] then None else Some tok)
      else None)"

fun invalid_uid_search :: "string \<Rightarrow> string option" where
  "invalid_uid_search [] = None"
| "invalid_uid_search (c # cs) =
     (case invalid_uid_at (c # cs) of
        Some u \<Rightarrow> Some u
      | None \<Rightarrow> invalid_uid_search cs)"

section \<open>Header extraction (clean\_fasta.py)\<close>

text \<open>
  \<open>extract_accession_from_header\<close>: a line that is not a header gives the empty
  string; a header gives the first identifier-shaped token, else the first
  whitespace-delimited token after the marker. Indexing the empty token list with
  \<open>[0]\<close> raises \<open>IndexError\<close>.
\<close>

definition extract_accession_from_header :: "string \<Rightarrow> py_error + string" where
  "extract_accession_from_header line0 =
     (let line = rstrip_newline line0
      in if \<not> startswith_gt line then Inr []
         else
           (case refseq_search line of
              Some m \<Rightarrow> Inr m
            | None \<Rightarrow>
                (case split (strip (tl line)) of
                   [] \<Rightarrow> Inl IndexError
                 | token # _ \<Rightarrow> Inr token)))"

text \<open>
  \<open>collect_accessions_from_fasta\<close> over the lines of the file: the set of non-empty
  identifiers of the header lines, returned sorted. The first header whose extraction
  raises ends the scan with that error.
\<close>

fun collect_loop :: "string list \<Rightarrow> string set \<Rightarrow> py_error + string set" where
  "collect_loop [] accs = Inr accs"
| "collect_loop (line # rest) accs =
     (if startswith_gt line
      then
        (case extract_accession_from_header line of
           Inl e \<Rightarrow> Inl e
         | Inr acc \<Rightarrow> collect_loop rest (if acc \<noteq> [] then insert acc accs else accs))
      else collect_loop rest accs)"

definition collect_accessions_from_fasta :: "string list \<Rightarrow> py_error + string list" where
  "collect_accessions_from_fasta lines =
     (case collect_loop lines {} of
        Inl e \<Rightarrow> Inl e
      | Inr accs \<Rightarrow> Inr (sorted_list_of_set accs))"

section \<open>The dataset rewriter (clean\_fasta.py)\<close>

text \<open>
  \<open>write_cleaned_fasta\<close> reads the input line by line and writes to \<open>fout\<close>. The state
  of its loop is the flag \<open>write_current\<close>, the lines written so far and the two
  counters. An exception leaves the loop with the lines written up to that point.
  \<open>rewrite_loop\<close> and \<open>write_cleaned_fasta\<close> below work on the lines that iterating
  over \<open>fin\<close> yields; \<open>write_cleaned_fasta_file\<close> further down adds the reading and
  writing of the files in text mode.
\<close>

record rw_state =
  write_current :: bool
  fout :: "string list"
  kept :: nat
  skipped :: nat

fun rewrite_loop :: "string set \<Rightarrow> string list \<Rightarrow> rw_state \<Rightarrow> py_error \<times> rw_state + rw_state" where
  "rewrite_loop bad_ids [] st = Inr st"
| "rewrite_loop bad_ids (line # rest) st =
     (if startswith_gt line
      then
        (case extract_accession_from_header line of
           Inl e \<Rightarrow> Inl (e, st)
         | Inr acc \<Rightarrow>
             if acc \<in> bad_ids
             then rewrite_loop bad_ids rest
                    (st\<lparr>write_current := False, skipped := skipped st + 1\<rparr>)
             else rewrite_loop bad_ids rest
                    (st\<lparr>write_current := True, kept := kept st + 1,
                        fout := fout st @ [line]\<rparr>))
      else
        (if write_current st
         then rewrite_loop bad_ids rest (st\<lparr>fout := fout st @ [line]\<rparr>)
         else rewrite_loop bad_ids rest st))"

definition rw_init :: rw_state where
  "rw_init = \<lparr>write_current = True, fout = [], kept = 0, skipped = 0\<rparr>"

definition write_cleaned_fasta :: "string list \<Rightarrow> string set \<Rightarrow> py_error \<times> rw_state + rw_state" where
  "write_cleaned_fasta lines bad_ids = rewrite_loop bad_ids lines rw_init"

text \<open>The lines in the output file when the call has ended, normally or not.\<close>

fun written :: "py_error \<times> rw_state + rw_state \<Rightarrow> string list" where
  "written (Inl (e, st)) = fout st"
| "written (Inr st) = fout st"

text \<open>
  Both files are opened in text mode (\<open>"rt"\<close> and \<open>"wt"\<close>, also through \<open>gzip.open\<close>).
  The content of a file is modelled as its decoded characters; decoding itself (the
  platform's encoding, which refuses undecodable bytes) is outside the model, and on
  ASCII files characters are bytes.

  Reading translates the line ends \<open>CRLF\<close> and \<open>CR\<close> to \<open>LF\<close>:
\<close>

fun universal_newlines :: "string \<Rightarrow> string" where
  "universal_newlines [] = []"
| "universal_newlines [c] = [if c = CHR 0x0D then CHR 0x0A else c]"
| "universal_newlines (c # d # cs) =
     (if c = CHR 0x0D \<and> d = CHR 0x0A then CHR 0x0A # universal_newlines cs
      else if c = CHR 0x0D then CHR 0x0A # universal_newlines (d # cs)
      else c # universal_newlines (d # cs))"

text \<open>
  Iterating over the file yields the translated content line by line, each line
  with its \<open>LF\<close>, the last one possibly without. The first argument is the line
  being read.
\<close>

fun lines_from :: "string \<Rightarrow> string \<Rightarrow> string list" where
  "lines_from cur [] = (if cur = [] then [] else [cur])"
| "lines_from cur (c # cs) =
     (if c = CHR 0x0A then (cur @ [c]) # lines_from [] cs
      else lines_from (cur @ [c]) cs)"

definition read_lines :: "string \<Rightarrow> string list" where
  "read_lines content = lines_from [] (universal_newlines content)"

text \<open>
  Writing translates each \<open>LF\<close> to the platform's line separator \<open>os.linesep\<close>,
  a parameter here (\<open>LF\<close>, or \<open>CRLF\<close> on Windows).
\<close>

definition write_text :: "string \<Rightarrow> string list \<Rightarrow> string" where
  "write_text linesep lines =
     concat (map (\<lambda>line. concat (map (\<lambda>c. if c = CHR 0x0A then linesep else [c]) line)) lines)"

text \<open>
  \<open>write_cleaned_fasta\<close> from the content of the input file to the content of the
  output file: the loop above over the lines as read, with \<open>bad_ids\<close>.
\<close>

definition write_cleaned_fasta_file ::
  "string \<Rightarrow> string \<Rightarrow> string set \<Rightarrow> py_error \<times> string + string" where
  "write_cleaned_fasta_file linesep input bad_ids =
     (case write_cleaned_fasta (read_lines input) bad_ids of
        Inl (e, st) \<Rightarrow> Inl (e, write_text linesep (fout st))
      | Inr st \<Rightarrow> Inr (write_text linesep (fout st)))"

text \<open>
  A record of the dataset: one header line and its body lines. A well-formed record
  has a header that starts with the marker and yields an identifier, and body lines
  that do not start with the marker. \<open>kept_record\<close> says that the identifier of the
  record's header is not in the rejected set.
\<close>

record fasta_record =
  header :: string
  body :: "string list"

definition record_lines :: "fasta_record \<Rightarrow> string list" where
  "record_lines r = header r # body r"

definition well_formed :: "fasta_record \<Rightarrow> bool" where
  "well_formed r =
     (startswith_gt (header r) \<and> list_all (\<lambda>l. \<not> startswith_gt l) (body r) \<and>
      (case extract_accession_from_header (header r) of Inl e \<Rightarrow> False | Inr acc \<Rightarrow> True))"

definition kept_record :: "string set \<Rightarrow> fasta_record \<Rightarrow> bool" where
  "kept_record bad_ids r =
     (case extract_accession_from_header (header r) of
        Inl e \<Rightarrow> False
      | Inr acc \<Rightarrow> acc \<notin> bad_ids)"

section \<open>The remote lookup service and what a run observes\<close>

text \<open>
  A remote call (\<open>Entrez.esummary\<close>, \<open>Entrez.read\<close>, \<open>close\<close>) either returns or raises
  an exception; \<open>Failure msg\<close> carries \<open>str(e)\<close>. The service is any sequence of
  outcomes: \<open>env n\<close> is the outcome of remote call number \<open>n\<close> of the run, counted
  from 0 over whole-batch and per-identifier calls alike.

  The trace lists, in order, the remote calls with their outcomes and the completed
  calls of \<open>time.sleep\<close> with their length in seconds. Log lines and the progress
  counters \<open>processed\<close> and \<open>total\<close>, which only feed log lines, are left out.
\<close>

datatype outcome = Success | Failure string

type_synonym remote = "nat \<Rightarrow> outcome"

datatype event =
    BatchCall "string list" outcome
  | SingleCall string outcome
  | Sleep real

text \<open>
  The state of \<open>validate_ids_with_entrez\<close>: the set \<open>invalid_ids\<close>, the counter
  \<open>attempt\<close> of the batch being processed (it starts at 0 and is only ever
  incremented, hence a natural number; \<open>retries\<close> is any integer), the number of
  remote calls issued so far, and the trace.
\<close>

record vstate =
  invalid_ids :: "string set"
  attempt :: nat
  calls :: nat
  trace :: "event list"

text \<open>
  \<open>time.sleep(secs)\<close> for a float argument. The call raises \<open>ValueError\<close> for a
  negative length and \<open>OverflowError\<close> for a length that does not fit the signed
  64-bit count of nanoseconds into which it is converted (more than \<open>2^63 - 1\<close>
  nanoseconds, about 9223372036.85 seconds); otherwise it completes. \<open>sleep_error\<close>
  gives the message of the exception, or \<open>None\<close> when the sleep completes. The values
  \<open>inf\<close> and \<open>nan\<close>, which \<open>time.sleep\<close> refuses as well, are not values of the
  model's delay.
\<close>

definition sleep_error :: "real \<Rightarrow> string option" where
  "sleep_error secs =
     (if secs < 0 then Some ''sleep length must be non-negative''
      else if 2 ^ 63 - 1 < secs * 10 ^ 9
      then Some ''timestamp too large to convert to C _PyTime_t''
      else None)"

text \<open>
  The body of a \<open>try\<close> block: the remote call followed by \<open>time.sleep(delay)\<close>. An
  exception of \<open>time.sleep\<close> is raised inside the \<open>try\<close>, so the handler then sees
  that exception although the remote call returned, and no sleep is completed. The
  result is \<open>None\<close> when the block completed and the message of the exception
  otherwise.
\<close>

definition try_esummary ::
  "remote \<Rightarrow> real \<Rightarrow> (outcome \<Rightarrow> event) \<Rightarrow> vstate \<Rightarrow> string option \<times> vstate" where
  "try_esummary env delay call st =
     (let st1 = st\<lparr>calls := calls st + 1\<rparr>
      in case env (calls st) of
           Failure msg \<Rightarrow> (Some msg, st1\<lparr>trace := trace st @ [call (Failure msg)]\<rparr>)
         | Success \<Rightarrow>
             (case sleep_error delay of
                Some msg \<Rightarrow> (Some msg, st1\<lparr>trace := trace st @ [call Success]\<rparr>)
              | None \<Rightarrow> (None, st1\<lparr>trace := trace st @ [call Success, Sleep delay]\<rparr>)))"

section \<open>The batch validator (clean\_fasta.py)\<close>

text \<open>
  \<open>chunker\<close>: the slices \<open>seq[i:i+n]\<close> for \<open>i\<close> in \<open>range(0, len(seq), n)\<close>. A zero step
  makes \<open>range\<close> raise \<open>ValueError\<close>; a negative step gives an empty range.
\<close>

definition chunker :: "'a list \<Rightarrow> int \<Rightarrow> py_error + 'a list list" where
  "chunker seq n =
     (if n = 0 then Inl ValueError
      else if n < 0 then Inr []
      else Inr (map (\<lambda>i. take (nat n) (drop i seq))
                  (filter (\<lambda>i. i mod nat n = 0) [0..<length seq])))"

text \<open>The per-identifier fallback: the loop \<open>for acc in batch\<close>.\<close>

fun fallback :: "remote \<Rightarrow> real \<Rightarrow> string list \<Rightarrow> vstate \<Rightarrow> vstate" where
  "fallback env delay [] st = st"
| "fallback env delay (acc # rest) st =
     (case try_esummary env delay (SingleCall acc) st of
        (None, st1) \<Rightarrow> fallback env delay rest st1
      | (Some e2, st1) \<Rightarrow>
          fallback env delay rest (st1\<lparr>invalid_ids := insert acc (invalid_ids st1)\<rparr>))"

text \<open>
  Case 1 of the handler: the message matches \<open>Invalid uid X\<close> and \<open>X\<close> is in the
  batch.
\<close>

definition confirmed_invalid :: "string \<Rightarrow> string list \<Rightarrow> string option" where
  "confirmed_invalid msg batch =
     (case invalid_uid_search msg of
        None \<Rightarrow> None
      | Some bad_uid \<Rightarrow> if bad_uid \<in> set batch then Some bad_uid else None)"

text \<open>
  The loop \<open>while True\<close> over one batch. The back-off \<open>time.sleep(3 * attempt)\<close> is
  taken to complete: its length is positive, and it passes the limit of \<open>time.sleep\<close>
  only after more than \<open>3 * 10^9\<close> back-offs of the same batch, which sleep for more
  than \<open>10^19\<close> seconds together, have completed.
\<close>

function batch_loop :: "remote \<Rightarrow> real \<Rightarrow> int \<Rightarrow> string list \<Rightarrow> vstate \<Rightarrow> vstate" where
  "batch_loop env delay retries batch st =
     (case try_esummary env delay (BatchCall batch) st of
        (None, st1) \<Rightarrow> st1
      | (Some msg, st1) \<Rightarrow>
          (case confirmed_invalid msg batch of
             Some bad_uid \<Rightarrow>
               (let st2 = st1\<lparr>invalid_ids := insert bad_uid (invalid_ids st1)\<rparr>;
                    batch' = filter (\<lambda>x. x \<noteq> bad_uid) batch
                in if batch' = [] then st2
                   else batch_loop env delay retries batch' st2)
           | None \<Rightarrow>
               (let st2 = st1\<lparr>attempt := attempt st1 + 1\<rparr>
                in if int (attempt st2) > retries
                   then fallback env delay batch st2
                   else batch_loop env delay retries batch
                          (st2\<lparr>trace := trace st2 @ [Sleep (real (3 * attempt st2))]\<rparr>))))"
  by pat_completeness auto

lemma try_esummary_attempt:
  "try_esummary env delay call st = (r, st1) \<Longrightarrow> attempt st1 = attempt st"
  by (auto simp: try_esummary_def Let_def split: outcome.splits option.splits if_splits)

lemma confirmed_invalid_mem:
  "confirmed_invalid msg batch = Some u \<Longrightarrow> u \<in> set batch"
  by (auto simp: confirmed_invalid_def split: option.splits if_splits)

lemma length_filter_neq_less:
  "u \<in> set batch \<Longrightarrow> length (filter (\<lambda>x. x \<noteq> u) batch) < length batch"
  by (induction batch) (auto simp: less_Suc_eq_le)

lemma try_esummary_Some_attempt:
  "(Some msg, st1) = try_esummary env delay call st \<Longrightarrow> attempt st1 = attempt st"
  using try_esummary_attempt [of env delay call st "Some msg" st1] by simp

termination batch_loop
proof (relation "measure (\<lambda>(env, delay, retries, batch, st).
                   length batch + nat (retries + 1 - int (attempt st)))", goal_cases)
  case 1
  show ?case by simp
next
  case 2
  then show ?case
    by (clarsimp dest!: try_esummary_Some_attempt)
next
  case 3
  then show ?case
    by (clarsimp dest!: try_esummary_Some_attempt)
       (metis length_filter_neq_less confirmed_invalid_mem)
qed

declare batch_loop.simps [simp del]

text \<open>
  The loop \<open>for original_batch in chunker(ids, batch_size)\<close>. Each batch starts with
  \<open>attempt = 0\<close>.
\<close>

fun validate_batches :: "remote \<Rightarrow> real \<Rightarrow> int \<Rightarrow> string list list \<Rightarrow> vstate \<Rightarrow> vstate" where
  "validate_batches env delay retries [] st = st"
| "validate_batches env delay retries (original_batch # rest) st =
     (if original_batch = [] then validate_batches env delay retries rest st
      else validate_batches env delay retries rest
             (batch_loop env delay retries original_batch (st\<lparr>attempt := 0\<rparr>)))"

definition v_init :: vstate where
  "v_init = \<lparr>invalid_ids = {}, attempt = 0, calls = 0, trace = []\<rparr>"

text \<open>
  The default delay: \<open>0.10 if api_key else 0.34\<close>, where \<open>None\<close> and the empty string
  count as false.
\<close>

definition effective_delay :: "string option \<Rightarrow> real option \<Rightarrow> real" where
  "effective_delay api_key delay =
     (case delay of
        Some d \<Rightarrow> d
      | None \<Rightarrow> if api_key = None \<or> api_key = Some [] then 0.34 else 0.10)"

text \<open>
  The whole run, with everything it observes, and \<open>validate_ids_with_entrez\<close>, which
  returns the set \<open>invalid_ids\<close>. The parameter \<open>email\<close> is stored in the client
  library and plays no further role.
\<close>

definition validate_run ::
  "string list \<Rightarrow> string option \<Rightarrow> real option \<Rightarrow> int \<Rightarrow> int \<Rightarrow> remote \<Rightarrow> py_error + vstate" where
  "validate_run ids api_key delay retries batch_size env =
     (case chunker ids batch_size of
        Inl e \<Rightarrow> Inl e
      | Inr batches \<Rightarrow>
          Inr (validate_batches env (effective_delay api_key delay) retries batches v_init))"

definition validate_ids_with_entrez ::
  "string list \<Rightarrow> string option \<Rightarrow> real option \<Rightarrow> int \<Rightarrow> int \<Rightarrow> remote \<Rightarrow> py_error + string set" where
  "validate_ids_with_entrez ids api_key delay retries batch_size env =
     map_sum id invalid_ids (validate_run ids api_key delay retries batch_size env)"

section \<open>The metadata fetch (entrez\_metadata.py)\<close>

text \<open>
  \<open>is_valid_protein_id\<close> with its three patterns, each applied with \<open>match\<close>, which
  anchors at the start; \<open>$\<close> matches at the end of the string and before a newline
  that ends it.
  \<^item> \<open>^\d+$\<close>
  \<^item> \<open>^[A-Z]{1,3}_\d+(?:\.\d+)?$\<close>
  \<^item> \<open>^[A-NR-Z0-9]{6,10}$\<close>
\<close>

definition at_dollar :: "string \<Rightarrow> bool" where
  "at_dollar r = (r = [] \<or> r = [CHR 0x0A])"

definition valid_numeric :: "string \<Rightarrow> bool" where
  "valid_numeric s = (takeWhile is_digit s \<noteq> [] \<and> at_dollar (dropWhile is_digit s))"

definition valid_refseq :: "string \<Rightarrow> bool" where
  "valid_refseq s =
     (case refseq_at s of
        None \<Rightarrow> False
      | Some m \<Rightarrow> at_dollar (drop (length m) s))"

definition is_uniprot_char :: "char \<Rightarrow> bool" where
  "is_uniprot_char c =
     (let n = (of_char c :: nat)
      in (65 \<le> n \<and> n \<le> 78) \<or> (82 \<le> n \<and> n \<le> 90) \<or> (48 \<le> n \<and> n \<le> 57))"

definition valid_uniprot :: "string \<Rightarrow> bool" where
  "valid_uniprot s =
     (let k = length (takeWhile is_uniprot_char s)
      in 6 \<le> k \<and> k \<le> 10 \<and> at_dollar (dropWhile is_uniprot_char s))"

definition is_valid_protein_id :: "string \<Rightarrow> bool" where
  "is_valid_protein_id s0 =
     (let s = strip s0
      in if s = [] then False
         else if valid_numeric s then True
         else if valid_refseq s then True
         else if valid_uniprot s then True
         else False)"

text \<open>
  \<open>load_accessions_from_fasta\<close> over the lines of the files, in order. Here the
  pattern is searched in the line as read, and the fallback token is taken with
  \<open>[0]\<close> as in \<open>extract_accession_from_header\<close>.
\<close>

fun load_loop :: "string list \<Rightarrow> string set \<Rightarrow> py_error + string set" where
  "load_loop [] accs = Inr accs"
| "load_loop (line # rest) accs =
     (if startswith_gt line
      then
        (case (case refseq_search line of
                 Some m \<Rightarrow> Inr m
               | None \<Rightarrow>
                   (case split (strip (tl line)) of
                      [] \<Rightarrow> Inl IndexError
                    | token # _ \<Rightarrow> Inr token)) of
           Inl e \<Rightarrow> Inl e
         | Inr token \<Rightarrow>
             load_loop rest
               (if token \<noteq> [] \<and> is_valid_protein_id token then insert token accs else accs))
      else load_loop rest accs)"

definition load_accessions_from_fasta :: "string list list \<Rightarrow> py_error + string list" where
  "load_accessions_from_fasta files =
     (case load_loop (concat files) {} of
        Inl e \<Rightarrow> Inl e
      | Inr accs \<Rightarrow> Inr (sorted_list_of_set accs))"

text \<open>
  \<open>esummary_protein\<close>. Its loop has the same shape as the validator's, with two
  differences: \<open>attempt\<close> is incremented at the top of the handler, before the
  message is classified, and when \<open>attempt\<close> exceeds \<open>retries\<close> the exception is
  raised again (\<open>Inl\<close> with its message) instead of entering a fallback. The records
  returned by the service are opaque; \<open>fetched\<close> lists the batches whose records
  were appended to \<open>out\<close>; they are appended before \<open>time.sleep(delay)\<close>, so also when
  that sleep raises. The batch size is the constant 400, for which \<open>chunker\<close> does
  not raise.
\<close>

record mstate =
  fetched :: "string list list"
  m_attempt :: nat
  m_calls :: nat

function esummary_loop ::
  "remote \<Rightarrow> real \<Rightarrow> int \<Rightarrow> string list \<Rightarrow> mstate \<Rightarrow> string + mstate" where
  "esummary_loop env delay retries batch st =
     (let st0 = st\<lparr>m_calls := m_calls st + 1\<rparr>
      in case (case env (m_calls st) of
                 Failure msg \<Rightarrow> (Some msg, st0)
               | Success \<Rightarrow>
                   (sleep_error delay, st0\<lparr>fetched := fetched st0 @ [batch]\<rparr>)) of
           (None, st1) \<Rightarrow> Inr st1
         | (Some msg, st1) \<Rightarrow>
             (let st2 = st1\<lparr>m_attempt := m_attempt st1 + 1\<rparr>
              in case confirmed_invalid msg batch of
                   Some bad_uid \<Rightarrow>
                     (let batch' = filter (\<lambda>x. x \<noteq> bad_uid) batch
                      in if batch' = [] then Inr st2
                         else esummary_loop env delay retries batch' st2)
                 | None \<Rightarrow>
                     if int (m_attempt st2) > retries then Inl msg
                     else esummary_loop env delay retries batch st2))"
  by pat_completeness auto

termination esummary_loop
proof (relation "measure (\<lambda>(env, delay, retries, batch, st).
                   length batch + nat (retries + 1 - int (m_attempt st)))", goal_cases)
  case 1
  show ?case by simp
next
  case 2
  then show ?case
    by (auto split: outcome.splits option.splits if_splits)
next
  case 3
  then show ?case
    by (auto split: outcome.splits option.splits if_splits
             dest!: confirmed_invalid_mem length_filter_neq_less)
qed

declare esummary_loop.simps [simp del]

fun esummary_batches ::
  "remote \<Rightarrow> real \<Rightarrow> int \<Rightarrow> string list list \<Rightarrow> mstate \<Rightarrow> string + mstate" where
  "esummary_batches env delay retries [] st = Inr st"
| "esummary_batches env delay retries (batch # rest) st =
     (if batch = [] then esummary_batches env delay retries rest st
      else
        (case esummary_loop env delay retries batch (st\<lparr>m_attempt := 0\<rparr>) of
           Inl msg \<Rightarrow> Inl msg
         | Inr st' \<Rightarrow> esummary_batches env delay retries rest st'))"

definition esummary_protein ::
  "string list \<Rightarrow> real \<Rightarrow> int \<Rightarrow> remote \<Rightarrow> string + mstate" where
  "esummary_protein ids delay retries env =
     (case chunker ids 400 of
        Inl e \<Rightarrow> Inr \<lparr>fetched = [], m_attempt = 0, m_calls = 0\<rparr>
      | Inr batches \<Rightarrow>
          esummary_batches env delay retries batches
            \<lparr>fetched = [], m_attempt = 0, m_calls = 0\<rparr>)"

section \<open>Observations on a trace\<close>




text \<open>Remote calls, and remote calls that returned.\<close>

fun is_call :: "event \<Rightarrow> bool" where
  "is_call (BatchCall b out) = True"
| "is_call (SingleCall a out) = True"
| "is_call (Sleep d) = False"

fun is_success_call :: "event \<Rightarrow> bool" where
  "is_success_call (BatchCall b out) = (out = Success)"
| "is_success_call (SingleCall a out) = (out = Success)"
| "is_success_call (Sleep d) = False"

text \<open>
  Rate limiting after every call, in its weakest reading: after each remote call, a
  completed sleep of at least the configured length comes before the next remote
  call. (A sleep of exactly that length, or directly after the call, asks for more.)
\<close>

fun slept_before_next_call :: "real \<Rightarrow> event list \<Rightarrow> bool" where
  "slept_before_next_call d [] = True"
| "slept_before_next_call d (Sleep d' # es) = (d \<le> d' \<or> slept_before_next_call d es)"
| "slept_before_next_call d (BatchCall b out # es) = False"
| "slept_before_next_call d (SingleCall a out # es) = False"

fun delay_after_every_call :: "real \<Rightarrow> event list \<Rightarrow> bool" where
  "delay_after_every_call d [] = True"
| "delay_after_every_call d (e # es) =
     ((if is_call e then slept_before_next_call d es else True) \<and>
      delay_after_every_call d es)"

text \<open>
  Rate limiting after the calls that returned: each such call is directly followed
  by a completed sleep of exactly the configured length.
\<close>

definition next_is_sleep :: "real \<Rightarrow> event list \<Rightarrow> bool" where
  "next_is_sleep d es = (case es of [] \<Rightarrow> False | e # _ \<Rightarrow> e = Sleep d)"

fun delay_after_success :: "real \<Rightarrow> event list \<Rightarrow> bool" where
  "delay_after_success d [] = True"
| "delay_after_success d (e # es) =
     ((if is_success_call e then next_is_sleep d es else True) \<and>
      delay_after_success d es)"

text \<open>
  An identifier has its outcome in a state when it is in the rejected set or a
  remote call that returned covered it: a whole-batch call on a batch that contains
  it, or its individual call.
\<close>

fun accepted_by :: "string \<Rightarrow> event \<Rightarrow> bool" where
  "accepted_by x (BatchCall b out) = (out = Success \<and> x \<in> set b)"
| "accepted_by x (SingleCall a out) = (out = Success \<and> a = x)"
| "accepted_by x (Sleep d) = False"

definition resolved :: "string \<Rightarrow> vstate \<Rightarrow> bool" where
  "resolved x st = (x \<in> invalid_ids st \<or> list_ex (accepted_by x) (trace st))"

text \<open>A later state of the same run: nothing rejected is lost and the trace grows.\<close>

definition extends :: "vstate \<Rightarrow> vstate \<Rightarrow> bool" where
  "extends st st' = (invalid_ids st \<subseteq> invalid_ids st' \<and> (\<exists>es. trace st' = trace st @ es))"

section \<open>Concrete services\<close>

text \<open>A service given by the list of its first outcomes; every later call succeeds.\<close>

definition outcomes :: "outcome list \<Rightarrow> remote" where
  "outcomes os n = (if n < length os then os ! n else Success)"

section \<open>Properties of the dataset rewriter and of header extraction\<close>

lemma rewrite_loop_body:
  "list_all (\<lambda>l. \<not> startswith_gt l) ls \<Longrightarrow>
   rewrite_loop S (ls @ rest) st =
   rewrite_loop S rest (if write_current st then st\<lparr>fout := fout st @ ls\<rparr> else st)"
  by (induction ls arbitrary: st) auto

lemma rewrite_loop_record:
  "well_formed r \<Longrightarrow>
   rewrite_loop S (record_lines r @ rest) st =
   rewrite_loop S rest
     (if kept_record S r
      then st\<lparr>write_current := True, kept := kept st + 1, fout := fout st @ record_lines r\<rparr>
      else st\<lparr>write_current := False, skipped := skipped st + 1\<rparr>)"
  by (auto simp: well_formed_def kept_record_def record_lines_def rewrite_loop_body
           split: sum.splits)

lemma rewrite_loop_records:
  "\<forall>r \<in> set rs. well_formed r \<Longrightarrow>
   \<exists>st'. rewrite_loop S (concat (map record_lines rs)) st = Inr st' \<and>
         fout st' = fout st @ concat (map record_lines (filter (kept_record S) rs)) \<and>
         kept st' = kept st + length (filter (kept_record S) rs) \<and>
         skipped st' = skipped st + length (filter (\<lambda>r. \<not> kept_record S r) rs)"
proof (induction rs arbitrary: st)
  case Nil
  then show ?case by simp
next
  case (Cons r rs)
  have wf: "well_formed r" and rest: "\<forall>r \<in> set rs. well_formed r"
    using Cons.prems by simp_all
  show ?case
  proof (cases "kept_record S r")
    case True
    from Cons.IH [OF rest, of "st\<lparr>write_current := True, kept := kept st + 1, fout := fout st @ record_lines r\<rparr>"]
    show ?thesis using True wf by (simp add: rewrite_loop_record)
  next
    case False
    from Cons.IH [OF rest, of "st\<lparr>write_current := False, skipped := skipped st + 1\<rparr>"]
    show ?thesis using False wf by (simp add: rewrite_loop_record)
  qed
qed

lemma concat_lines_from: "concat (lines_from cur s) = cur @ s"
  by (induction s arbitrary: cur) simp_all

lemma concat_read_lines: "concat (read_lines s) = universal_newlines s"
  by (simp add: read_lines_def concat_lines_from)

lemma universal_newlines_no_cr:
  "CHR 0x0D \<notin> set s \<Longrightarrow> universal_newlines s = s"
  by (induction s rule: universal_newlines.induct) auto

lemma write_text_lf: "write_text [CHR 0x0A] lines = concat lines"
proof -
  have "concat (map (\<lambda>c. if c = CHR 0x0A then [CHR 0x0A] else [c]) line) = line" for line
    by (induction line) auto
  then show ?thesis
    by (simp add: write_text_def)
qed

text \<open>
  Claim C8 (rewriter fidelity), as amended. Let the lines of the input, as read in
  text mode, form the well-formed records \<open>R1..Rn\<close>. Then for every rejected set
  \<open>write_cleaned_fasta\<close> returns normally, and its output consists of exactly the
  records whose header identifier is not in the set, in their original order, the
  body lines of a record following the decision taken at its header. Each kept line
  is written as it was read: the lines together are the input with every line end
  \<open>CRLF\<close> or \<open>CR\<close> replaced by \<open>LF\<close>, and each \<open>LF\<close> is written as the line
  separator. So kept lines are copies character for character (byte for byte on
  ASCII files) when the input has no \<open>CR\<close> and the line separator is \<open>LF\<close>. As stated, for every input, the claim fails: a kept
  record of a file with \<open>CRLF\<close> line ends is written with \<open>LF\<close> line ends (shown
  below).
\<close>

theorem rewriter_fidelity:
  assumes "read_lines input = concat (map record_lines rs)"
    and "\<forall>r \<in> set rs. well_formed r"
  shows "(\<exists>st. write_cleaned_fasta (read_lines input) bad_ids = Inr st \<and>
              fout st = concat (map record_lines (filter (kept_record bad_ids) rs)) \<and>
              kept st = length (filter (kept_record bad_ids) rs) \<and>
              skipped st = length (filter (\<lambda>r. \<not> kept_record bad_ids r) rs)) \<and>
         write_cleaned_fasta_file linesep input bad_ids =
           Inr (write_text linesep
                  (concat (map record_lines (filter (kept_record bad_ids) rs)))) \<and>
         concat (concat (map record_lines rs)) = universal_newlines input \<and>
         (CHR 0x0D \<notin> set input \<longrightarrow> universal_newlines input = input) \<and>
         (\<forall>lines. write_text [CHR 0x0A] lines = concat lines)"
proof -
  from rewrite_loop_records [OF assms(2), of bad_ids rw_init] obtain st where
    r: "write_cleaned_fasta (read_lines input) bad_ids = Inr st"
      "fout st = concat (map record_lines (filter (kept_record bad_ids) rs))"
      "kept st = length (filter (kept_record bad_ids) rs)"
      "skipped st = length (filter (\<lambda>r. \<not> kept_record bad_ids r) rs)"
    unfolding assms(1) write_cleaned_fasta_def by (auto simp: rw_init_def)
  have f: "write_cleaned_fasta_file linesep input bad_ids =
           Inr (write_text linesep
                  (concat (map record_lines (filter (kept_record bad_ids) rs))))"
    using r(1,2) by (simp add: write_cleaned_fasta_file_def)
  have c: "concat (concat (map record_lines rs)) = universal_newlines input"
    using concat_read_lines [of input] assms(1) by simp
  show ?thesis
    using r f c universal_newlines_no_cr write_text_lf by blast
qed


lemma written_rewrite_loop:
  "written (rewrite_loop S ls st) = fout st @ written (rewrite_loop S ls (st\<lparr>fout := []\<rparr>))"
proof (induction ls arbitrary: st)
  case Nil
  then show ?case by simp
next
  case (Cons l ls)
  show ?case
  proof (cases "startswith_gt l")
    case True
    show ?thesis
    proof (cases "extract_accession_from_header l")
      case (Inl e)
      then show ?thesis using True by simp
    next
      case (Inr acc)
      show ?thesis
      proof (cases "acc \<in> S")
        case True
        show ?thesis
          using \<open>startswith_gt l\<close> Inr True
            Cons.IH [of "st\<lparr>write_current := False, skipped := skipped st + 1\<rparr>"]
            Cons.IH [of "st\<lparr>fout := [], write_current := False, skipped := skipped st + 1\<rparr>"]
          by simp
      next
        case False
        show ?thesis
          using \<open>startswith_gt l\<close> Inr False
            Cons.IH [of "st\<lparr>write_current := True, kept := kept st + 1, fout := fout st @ [l]\<rparr>"]
            Cons.IH [of "st\<lparr>fout := [], write_current := True, kept := kept st + 1, fout := [l]\<rparr>"]
          by simp
      qed
    qed
  next
    case False
    show ?thesis
    proof (cases "write_current st")
      case True
      show ?thesis
        using False True Cons.IH [of "st\<lparr>fout := fout st @ [l]\<rparr>"]
          Cons.IH [of "st\<lparr>fout := [l]\<rparr>"]
        by simp
    next
      case False
      show ?thesis
        using \<open>\<not> startswith_gt l\<close> False Cons.IH [of st] by simp
    qed
  qed
qed

text \<open>
  Claim C10 (leading body lines are always kept). Lines before the first header
  are written to the output whatever the rejected set is, and whatever happens in the
  rest of the stream: the output starts with them and continues with the output for
  the rest.
\<close>

theorem leading_lines_kept:
  assumes "\<forall>l \<in> set pre. \<not> startswith_gt l"
  shows "written (write_cleaned_fasta (pre @ rest) bad_ids) =
         pre @ written (write_cleaned_fasta rest bad_ids)"
proof -
  have "list_all (\<lambda>l. \<not> startswith_gt l) pre"
    using assms by (simp add: list_all_iff)
  then have "write_cleaned_fasta (pre @ rest) bad_ids =
             rewrite_loop bad_ids rest (rw_init\<lparr>fout := pre\<rparr>)"
    by (simp add: write_cleaned_fasta_def rewrite_loop_body rw_init_def)
  then show ?thesis
    using written_rewrite_loop [of bad_ids rest "rw_init\<lparr>fout := pre\<rparr>"]
    by (simp add: write_cleaned_fasta_def rw_init_def)
qed

text \<open>
  Claim C9 (header extraction is partial). On the header line that consists of the
  marker and a newline, \<open>extract_accession_from_header\<close> raises \<open>IndexError\<close>, and so
  do the header scans of both programs and the rewriter, which has written nothing at
  that point.
\<close>

theorem header_extraction_partial:
  "extract_accession_from_header ''>\<newline>'' = Inl IndexError \<and>
   collect_accessions_from_fasta [''>\<newline>''] = Inl IndexError \<and>
   (\<forall>bad_ids. write_cleaned_fasta [''>\<newline>''] bad_ids = Inl (IndexError, rw_init)) \<and>
   load_accessions_from_fasta [[''>\<newline>'']] = Inl IndexError"
proof -
  have e: "extract_accession_from_header ''>\<newline>'' = Inl IndexError"
    by code_simp
  have l: "load_accessions_from_fasta [[''>\<newline>'']] = Inl IndexError"
    by code_simp
  show ?thesis
    using e l by (simp add: collect_accessions_from_fasta_def write_cleaned_fasta_def)
qed

theorem leading_lines_kept_witness:
  "\<not> startswith_gt ''ACGT\<newline>'' \<and>
   written (write_cleaned_fasta ([''ACGT\<newline>''] @ [''>XP_1 a\<newline>'', ''AA\<newline>'']) {''XP_1''}) =
   [''ACGT\<newline>'']"
proof -
  have h: "\<forall>l \<in> set [''ACGT\<newline>'']. \<not> startswith_gt l" by simp
  have w: "written (write_cleaned_fasta [''>XP_1 a\<newline>'', ''AA\<newline>''] {''XP_1''}) = []"
    by code_simp
  show ?thesis
    using h leading_lines_kept [OF h, of "[''>XP_1 a\<newline>'', ''AA\<newline>'']" "{''XP_1''}"] w
    by simp
qed

theorem rewriter_fidelity_counterexample:
  "write_cleaned_fasta_file [CHR 0x0A]
     (''>XP_1 a'' @ [CHR 0x0D, CHR 0x0A] @ ''AA'' @ [CHR 0x0D, CHR 0x0A]) {} =
   Inr (''>XP_1 a'' @ [CHR 0x0A] @ ''AA'' @ [CHR 0x0A]) \<and>
   ''>XP_1 a'' @ [CHR 0x0A] @ ''AA'' @ [CHR 0x0A] \<noteq>
   ''>XP_1 a'' @ [CHR 0x0D, CHR 0x0A] @ ''AA'' @ [CHR 0x0D, CHR 0x0A]"
proof -
  have "write_cleaned_fasta_file [CHR 0x0A]
     (''>XP_1 a'' @ [CHR 0x0D, CHR 0x0A] @ ''AA'' @ [CHR 0x0D, CHR 0x0A]) {} =
   Inr (''>XP_1 a'' @ [CHR 0x0A] @ ''AA'' @ [CHR 0x0A])"
    by code_simp
  then show ?thesis by simp
qed

theorem rewriter_fidelity_witness:
  "read_lines ''>XP_1 a\<newline>AA\<newline>CC\<newline>>NP_2\<newline>GG\<newline>>tok x\<newline>'' =
     [''>XP_1 a\<newline>'', ''AA\<newline>'', ''CC\<newline>'', ''>NP_2\<newline>'', ''GG\<newline>'', ''>tok x\<newline>''] \<and>
   well_formed \<lparr>header = ''>XP_1 a\<newline>'', body = [''AA\<newline>'', ''CC\<newline>'']\<rparr> \<and>
   well_formed \<lparr>header = ''>NP_2\<newline>'', body = [''GG\<newline>'']\<rparr> \<and>
   well_formed \<lparr>header = ''>tok x\<newline>'', body = []\<rparr> \<and>
   CHR 0x0D \<notin> set ''>XP_1 a\<newline>AA\<newline>CC\<newline>>NP_2\<newline>GG\<newline>>tok x\<newline>'' \<and>
   universal_newlines ''>XP_1 a\<newline>AA\<newline>CC\<newline>>NP_2\<newline>GG\<newline>>tok x\<newline>'' =
     ''>XP_1 a\<newline>AA\<newline>CC\<newline>>NP_2\<newline>GG\<newline>>tok x\<newline>'' \<and>
   write_cleaned_fasta_file [CHR 0x0A]
     ''>XP_1 a\<newline>AA\<newline>CC\<newline>>NP_2\<newline>GG\<newline>>tok x\<newline>'' {''NP_2''} =
   Inr ''>XP_1 a\<newline>AA\<newline>CC\<newline>>tok x\<newline>''"
proof -
  let ?input = "''>XP_1 a\<newline>AA\<newline>CC\<newline>>NP_2\<newline>GG\<newline>>tok x\<newline>''"
  let ?r1 = "\<lparr>header = ''>XP_1 a\<newline>'', body = [''AA\<newline>'', ''CC\<newline>'']\<rparr>"
  let ?r2 = "\<lparr>header = ''>NP_2\<newline>'', body = [''GG\<newline>'']\<rparr>"
  let ?r3 = "\<lparr>header = ''>tok x\<newline>'', body = []\<rparr>"
  have l: "read_lines ?input =
     [''>XP_1 a\<newline>'', ''AA\<newline>'', ''CC\<newline>'', ''>NP_2\<newline>'', ''GG\<newline>'', ''>tok x\<newline>'']"
    by code_simp
  have w1: "well_formed ?r1" by code_simp
  have w2: "well_formed ?r2" by code_simp
  have w3: "well_formed ?r3" by code_simp
  have k1: "kept_record {''NP_2''} ?r1" by code_simp
  have k2: "\<not> kept_record {''NP_2''} ?r2" by code_simp
  have k3: "kept_record {''NP_2''} ?r3" by code_simp
  have n: "CHR 0x0D \<notin> set ?input" by simp
  have a1: "read_lines ?input = concat (map record_lines [?r1, ?r2, ?r3])"
    unfolding l by (simp add: record_lines_def)
  have a2: "\<forall>r \<in> set [?r1, ?r2, ?r3]. well_formed r"
    using w1 w2 w3 by simp
  note th = rewriter_fidelity [OF a1 a2, of "{''NP_2''}" "[CHR 0x0A]"]
  from th have "write_cleaned_fasta_file [CHR 0x0A] ?input {''NP_2''} =
        Inr (write_text [CHR 0x0A]
               (concat (map record_lines (filter (kept_record {''NP_2''}) [?r1, ?r2, ?r3]))))"
    by blast
  moreover from th have "\<forall>lines. write_text [CHR 0x0A] lines = concat lines"
    by blast
  ultimately have o: "write_cleaned_fasta_file [CHR 0x0A] ?input {''NP_2''} =
             Inr ''>XP_1 a\<newline>AA\<newline>CC\<newline>>tok x\<newline>''"
    using k1 k2 k3 by (simp add: record_lines_def)
  from th n have u: "universal_newlines ?input = ?input"
    by blast
  show ?thesis
    by (intro conjI l w1 w2 w3 n u o)
qed

section \<open>Properties of the batch validator\<close>

lemma try_esummary_fields:
  "try_esummary env delay call st = (r, st1) \<Longrightarrow>
   calls st1 = calls st + 1 \<and> invalid_ids st1 = invalid_ids st \<and> attempt st1 = attempt st"
  by (auto simp: try_esummary_def Let_def split: outcome.splits option.splits if_splits)

lemma batch_loop_success:
  "try_esummary env delay (BatchCall batch) st = (None, st1) \<Longrightarrow>
   batch_loop env delay retries batch st = st1"
  by (subst batch_loop.simps) simp

lemma batch_loop_confirmed:
  "try_esummary env delay (BatchCall batch) st = (Some msg, st1) \<Longrightarrow>
   confirmed_invalid msg batch = Some bad_uid \<Longrightarrow>
   batch_loop env delay retries batch st =
   (if filter (\<lambda>x. x \<noteq> bad_uid) batch = []
    then st1\<lparr>invalid_ids := insert bad_uid (invalid_ids st1)\<rparr>
    else batch_loop env delay retries (filter (\<lambda>x. x \<noteq> bad_uid) batch)
           (st1\<lparr>invalid_ids := insert bad_uid (invalid_ids st1)\<rparr>))"
  by (subst batch_loop.simps) (simp add: Let_def)

lemma batch_loop_ambiguous:
  "try_esummary env delay (BatchCall batch) st = (Some msg, st1) \<Longrightarrow>
   confirmed_invalid msg batch = None \<Longrightarrow>
   batch_loop env delay retries batch st =
   (if int (attempt st1 + 1) > retries
    then fallback env delay batch (st1\<lparr>attempt := attempt st1 + 1\<rparr>)
    else batch_loop env delay retries batch
           (st1\<lparr>attempt := attempt st1 + 1,
               trace := trace st1 @ [Sleep (real (3 * (attempt st1 + 1)))]\<rparr>))"
  by (subst batch_loop.simps) (simp add: Let_def)

lemma batch_loop_induct_steps [case_names step]:
  assumes "\<And>batch st.
     (\<And>msg st1 bad_uid.
        try_esummary env delay (BatchCall batch) st = (Some msg, st1) \<Longrightarrow>
        confirmed_invalid msg batch = Some bad_uid \<Longrightarrow>
        filter (\<lambda>x. x \<noteq> bad_uid) batch \<noteq> [] \<Longrightarrow>
        P (filter (\<lambda>x. x \<noteq> bad_uid) batch)
          (st1\<lparr>invalid_ids := insert bad_uid (invalid_ids st1)\<rparr>)) \<Longrightarrow>
     (\<And>msg st1.
        try_esummary env delay (BatchCall batch) st = (Some msg, st1) \<Longrightarrow>
        confirmed_invalid msg batch = None \<Longrightarrow>
        \<not> int (attempt st1 + 1) > retries \<Longrightarrow>
        P batch (st1\<lparr>attempt := attempt st1 + 1,
                    trace := trace st1 @ [Sleep (real (3 * (attempt st1 + 1)))]\<rparr>)) \<Longrightarrow>
     P batch st"
  shows "P batch st"
  using assms
proof (induction env delay retries batch st rule: batch_loop.induct)
  case (1 env delay retries batch st)
  note step = "1.prems"
  show ?case
  proof (rule step, goal_cases)
    case (1 msg st1 bad_uid)
    show ?case
      by (rule "1.IH"(2) [OF 1(1) [symmetric] refl 1(2) refl refl 1(3)]) (rule step)
  next
    case (2 msg st1)
    let ?st2 = "st1\<lparr>attempt := attempt st1 + 1\<rparr>"
    have "\<not> retries < int (attempt ?st2)"
      using 2(3) by simp
    then have "P batch (?st2\<lparr>trace := trace ?st2 @ [Sleep (real (3 * attempt ?st2))]\<rparr>)"
      by (rule "1.IH"(1) [OF 2(1) [symmetric] refl 2(2) refl]) (rule step)
    then show ?case by simp
  qed
qed







lemma fallback_attempt: "attempt (fallback env delay batch st) = attempt st"
  by (induction batch arbitrary: st)
     (simp_all add: try_esummary_def Let_def split: outcome.splits option.splits)



lemma fallback_invalid_bounds:
  "invalid_ids st \<subseteq> invalid_ids (fallback env delay batch st) \<and>
   invalid_ids (fallback env delay batch st) \<subseteq> invalid_ids st \<union> set batch"
proof (induction batch arbitrary: st)
  case Nil
  show ?case by simp
next
  case (Cons acc rest)
  obtain r st1 where t: "try_esummary env delay (SingleCall acc) st = (r, st1)"
    by (cases "try_esummary env delay (SingleCall acc) st")
  have i: "invalid_ids st1 = invalid_ids st"
    using try_esummary_fields [OF t] by simp
  show ?case
  proof (cases r)
    case None
    then show ?thesis
      using t i Cons.IH [of st1] by auto
  next
    case (Some e2)
    then show ?thesis
      using t i Cons.IH [of "st1\<lparr>invalid_ids := insert acc (invalid_ids st1)\<rparr>"] by auto
  qed
qed



lemma batch_loop_invalid_bounds:
  "invalid_ids st \<subseteq> invalid_ids (batch_loop env delay retries batch st) \<and>
   invalid_ids (batch_loop env delay retries batch st) \<subseteq> invalid_ids st \<union> set batch"
proof (induction batch st
    rule: batch_loop_induct_steps [where env = env and delay = delay and retries = retries])
  case (step batch st)
  obtain r st1 where t: "try_esummary env delay (BatchCall batch) st = (r, st1)"
    by (cases "try_esummary env delay (BatchCall batch) st")
  have i: "invalid_ids st1 = invalid_ids st"
    using try_esummary_fields [OF t] by simp
  show ?case
  proof (cases r)
    case None
    then show ?thesis
      using t i by (simp add: batch_loop_success)
  next
    case (Some msg)
    note t' = t [unfolded Some]
    show ?thesis
    proof (cases "confirmed_invalid msg batch")
      case None
      show ?thesis
      proof (cases "int (attempt st1 + 1) > retries")
        case True
        then show ?thesis
          using batch_loop_ambiguous [OF t' None, of retries] i
            fallback_invalid_bounds [of "st1\<lparr>attempt := attempt st1 + 1\<rparr>" env delay batch]
          by simp
      next
        case False
        then show ?thesis
          using batch_loop_ambiguous [OF t' None, of retries] i step(2) [OF t' None False]
          by simp
      qed
    next
      case (Some bad_uid)
      have m: "bad_uid \<in> set batch"
        using Some by (rule confirmed_invalid_mem)
      show ?thesis
      proof (cases "filter (\<lambda>x. x \<noteq> bad_uid) batch = []")
        case True
        then show ?thesis
          using batch_loop_confirmed [OF t' Some, of retries] i m by auto
      next
        case False
        then show ?thesis
          using batch_loop_confirmed [OF t' Some, of retries] i m step(1) [OF t' Some False]
          by auto
      qed
    qed
  qed
qed


lemma validate_batches_invalid_bounds:
  "invalid_ids (validate_batches env delay retries batches st) \<subseteq>
   invalid_ids st \<union> \<Union> (set ` set batches)"
proof (induction batches arbitrary: st)
  case Nil
  show ?case by simp
next
  case (Cons b bs)
  show ?case
  proof (cases "b = []")
    case True
    then show ?thesis using Cons.IH [of st] by auto
  next
    case False
    have "invalid_ids (batch_loop env delay retries b (st\<lparr>attempt := 0\<rparr>)) \<subseteq>
          invalid_ids st \<union> set b"
      using batch_loop_invalid_bounds [of "st\<lparr>attempt := 0\<rparr>" env delay retries b] by simp
    then show ?thesis
      using False Cons.IH [of "batch_loop env delay retries b (st\<lparr>attempt := 0\<rparr>)"]
      by auto
  qed
qed

lemma chunker_members:
  "chunker seq n = Inr batches \<Longrightarrow> \<Union> (set ` set batches) \<subseteq> set seq"
  by (auto simp: chunker_def split: if_splits dest!: in_set_takeD in_set_dropD)

lemma validate_ids_subset:
  assumes "validate_ids_with_entrez ids api_key delay retries batch_size env = Inr rejected"
  shows "rejected \<subseteq> set ids"
proof -
  from assms obtain batches where c: "chunker ids batch_size = Inr batches"
    and r: "rejected = invalid_ids
              (validate_batches env (effective_delay api_key delay) retries batches v_init)"
    by (auto simp: validate_ids_with_entrez_def validate_run_def split: sum.splits)
  have "rejected \<subseteq> \<Union> (set ` set batches)"
    using validate_batches_invalid_bounds
      [of env "effective_delay api_key delay" retries batches v_init]
    by (simp add: r v_init_def)
  then show ?thesis
    using chunker_members [OF c] by blast
qed

text \<open>
  Claim C1 (partition completeness). Whenever \<open>validate_ids_with_entrez\<close> returns a
  set, for any identifier list and any sequence of remote outcomes, the returned
  (rejected) set is a subset of the input identifiers; with the accepted set taken as
  the input set minus the returned one, the two are disjoint and their union is the
  input set.
\<close>

theorem partition_completeness:
  assumes "validate_ids_with_entrez ids api_key delay retries batch_size env = Inr rejected"
  shows "rejected \<subseteq> set ids \<and>
         (set ids - rejected) \<inter> rejected = {} \<and>
         (set ids - rejected) \<union> rejected = set ids"
  using validate_ids_subset [OF assms] by blast

lemma validate_returns:
  "batch_size \<noteq> 0 \<Longrightarrow>
   \<exists>rejected. validate_ids_with_entrez ids api_key delay retries batch_size env = Inr rejected"
  by (simp add: validate_ids_with_entrez_def validate_run_def chunker_def)

lemma confirmed_invalid_stale:
  "invalid_uid_search msg = Some x \<Longrightarrow> x \<notin> set batch \<Longrightarrow> confirmed_invalid msg batch = None"
  by (simp add: confirmed_invalid_def)

lemma try_esummary_Failure:
  "env (calls st) = Failure msg \<Longrightarrow>
   try_esummary env delay call st =
   (Some msg, st\<lparr>calls := calls st + 1, trace := trace st @ [call (Failure msg)]\<rparr>)"
  by (simp add: try_esummary_def Let_def)


lemma batch_loop_ambiguous_Failure:
  assumes "env (calls st) = Failure msg" and "confirmed_invalid msg batch = None"
  shows "batch_loop env delay retries batch st =
   (if int (attempt st) + 1 > retries
    then fallback env delay batch
           (st\<lparr>calls := calls st + 1,
               trace := trace st @ [BatchCall batch (Failure msg)],
               attempt := attempt st + 1\<rparr>)
    else batch_loop env delay retries batch
           (st\<lparr>calls := calls st + 1, attempt := attempt st + 1,
               trace := trace st @ [BatchCall batch (Failure msg),
                                    Sleep (real (3 * (attempt st + 1)))]\<rparr>))"
proof -
  have "try_esummary env delay (BatchCall batch) st =
        (Some msg, st\<lparr>calls := calls st + 1,
                      trace := trace st @ [BatchCall batch (Failure msg)]\<rparr>)"
    using assms(1) by (rule try_esummary_Failure)
  from batch_loop_ambiguous [OF this assms(2), of retries] show ?thesis
    by simp
qed



theorem partition_completeness_witness:
  "validate_ids_with_entrez [''A'', ''B'', ''C'', ''D''] None None 1 2
     (outcomes [Failure ''Invalid uid B'', Success, Failure ''boom'', Failure ''boom'',
                Success, Failure ''not found''])
   = Inr {''B'', ''D''} \<and>
   {''B'', ''D''} \<subseteq> set [''A'', ''B'', ''C'', ''D''] \<and>
   (set [''A'', ''B'', ''C'', ''D''] - {''B'', ''D''}) \<inter> {''B'', ''D''} = {} \<and>
   (set [''A'', ''B'', ''C'', ''D''] - {''B'', ''D''}) \<union> {''B'', ''D''} =
     set [''A'', ''B'', ''C'', ''D'']"
proof -
  have v: "validate_ids_with_entrez [''A'', ''B'', ''C'', ''D''] None None 1 2
     (outcomes [Failure ''Invalid uid B'', Success, Failure ''boom'', Failure ''boom'',
                Success, Failure ''not found''])
   = Inr {''B'', ''D''}"
    by code_simp
  from partition_completeness [OF v] v show ?thesis
    by blast
qed



text \<open>
  Claim C6 (stale single-identifier reports are treated as ambiguous). When a
  whole-batch call fails with a message that names an identifier \<open>x\<close> that is not in
  the batch, the loop takes the step of an unclassified failure: \<open>attempt\<close> is
  incremented, the batch and the rejected set stay as they are, and the loop either
  enters the fallback (budget exhausted) or retries the same batch after the back-off.
  Processing this batch never adds \<open>x\<close> to the rejected set.
\<close>

theorem stale_report_is_ambiguous:
  assumes "env (calls st) = Failure msg" and "invalid_uid_search msg = Some x"
    and "x \<notin> set batch"
  shows "batch_loop env delay retries batch st =
         (if int (attempt st) + 1 > retries
          then fallback env delay batch
                 (st\<lparr>calls := calls st + 1,
                     trace := trace st @ [BatchCall batch (Failure msg)],
                     attempt := attempt st + 1\<rparr>)
          else batch_loop env delay retries batch
                 (st\<lparr>calls := calls st + 1, attempt := attempt st + 1,
                     trace := trace st @ [BatchCall batch (Failure msg),
                                          Sleep (real (3 * (attempt st + 1)))]\<rparr>)) \<and>
         (x \<in> invalid_ids (batch_loop env delay retries batch st) \<longleftrightarrow> x \<in> invalid_ids st)"
proof -
  have c: "confirmed_invalid msg batch = None"
    using assms(2,3) by (rule confirmed_invalid_stale)
  have "x \<in> invalid_ids (batch_loop env delay retries batch st) \<longleftrightarrow> x \<in> invalid_ids st"
    using batch_loop_invalid_bounds [of st env delay retries batch] assms(3) by blast
  then show ?thesis
    using batch_loop_ambiguous_Failure [where env = env and st = st, OF assms(1) c, of delay retries]
    by simp
qed

lemma extends_refl: "extends st st"
  by (simp add: extends_def)

lemma extends_trans: "extends a b \<Longrightarrow> extends b c \<Longrightarrow> extends a c"
  by (auto simp: extends_def)

lemma resolved_extends: "resolved x st \<Longrightarrow> extends st st' \<Longrightarrow> resolved x st'"
  by (auto simp: resolved_def extends_def)

lemma resolved_by_event:
  "e \<in> set (trace st) \<Longrightarrow> accepted_by x e \<Longrightarrow> resolved x st"
  by (auto simp: resolved_def list_ex_iff)

lemma try_esummary_extends:
  "try_esummary env delay call st = (r, st1) \<Longrightarrow> extends st st1"
  by (auto simp: try_esummary_def Let_def extends_def split: outcome.splits option.splits)

lemma try_esummary_None_event:
  "try_esummary env delay call st = (None, st1) \<Longrightarrow> call Success \<in> set (trace st1)"
  by (auto simp: try_esummary_def Let_def split: outcome.splits option.splits)

lemma fallback_extends: "extends st (fallback env delay batch st)"
proof (induction batch arbitrary: st)
  case Nil
  show ?case by (simp add: extends_refl)
next
  case (Cons acc rest)
  obtain r st1 where t: "try_esummary env delay (SingleCall acc) st = (r, st1)"
    by (cases "try_esummary env delay (SingleCall acc) st")
  note e1 = try_esummary_extends [OF t]
  show ?case
  proof (cases r)
    case None
    then show ?thesis
      using t extends_trans [OF e1 Cons.IH [of st1]] by simp
  next
    case (Some e2)
    have "extends st1 (st1\<lparr>invalid_ids := insert acc (invalid_ids st1)\<rparr>)"
      by (auto simp: extends_def)
    from extends_trans [OF extends_trans [OF e1 this] Cons.IH] show ?thesis
      using t Some by simp
  qed
qed

lemma fallback_resolves:
  "x \<in> set batch \<Longrightarrow> resolved x (fallback env delay batch st)"
proof (induction batch arbitrary: st)
  case Nil
  then show ?case by simp
next
  case (Cons acc rest)
  obtain r st1 where t: "try_esummary env delay (SingleCall acc) st = (r, st1)"
    by (cases "try_esummary env delay (SingleCall acc) st")
  show ?case
  proof (cases "x = acc")
    case True
    show ?thesis
    proof (cases r)
      case None
      have "SingleCall acc Success \<in> set (trace st1)"
        using t None try_esummary_None_event by blast
      then have "resolved x st1"
        using True by (auto intro: resolved_by_event)
      from resolved_extends [OF this fallback_extends] show ?thesis
        using t None by simp
    next
      case (Some e2)
      have "resolved x (st1\<lparr>invalid_ids := insert acc (invalid_ids st1)\<rparr>)"
        using True by (simp add: resolved_def)
      from resolved_extends [OF this fallback_extends] show ?thesis
        using t Some by simp
    qed
  next
    case False
    then have "x \<in> set rest" using Cons.prems by simp
    then show ?thesis
      using t Cons.IH by (cases r) simp_all
  qed
qed

lemma batch_loop_extends: "extends st (batch_loop env delay retries batch st)"
proof (induction batch st
    rule: batch_loop_induct_steps [where env = env and delay = delay and retries = retries])
  case (step batch st)
  obtain r st1 where t: "try_esummary env delay (BatchCall batch) st = (r, st1)"
    by (cases "try_esummary env delay (BatchCall batch) st")
  note e1 = try_esummary_extends [OF t]
  show ?case
  proof (cases r)
    case None
    then show ?thesis
      using t e1 by (simp add: batch_loop_success)
  next
    case (Some msg)
    note t' = t [unfolded Some]
    show ?thesis
    proof (cases "confirmed_invalid msg batch")
      case None
      show ?thesis
      proof (cases "int (attempt st1 + 1) > retries")
        case True
        have "extends st1 (st1\<lparr>attempt := attempt st1 + 1\<rparr>)"
          by (simp add: extends_def)
        from extends_trans [OF extends_trans [OF e1 this] fallback_extends] show ?thesis
          using batch_loop_ambiguous [OF t' None, of retries] True by simp
      next
        case False
        have "extends st1 (st1\<lparr>attempt := attempt st1 + 1,
                    trace := trace st1 @ [Sleep (real (3 * (attempt st1 + 1)))]\<rparr>)"
          by (simp add: extends_def)
        from extends_trans [OF extends_trans [OF e1 this] step(2) [OF t' None False]]
        show ?thesis
          using batch_loop_ambiguous [OF t' None, of retries] False by simp
      qed
    next
      case (Some bad_uid)
      have e2: "extends st (st1\<lparr>invalid_ids := insert bad_uid (invalid_ids st1)\<rparr>)"
        using e1 by (auto simp: extends_def)
      show ?thesis
      proof (cases "filter (\<lambda>x. x \<noteq> bad_uid) batch = []")
        case True
        then show ?thesis
          using batch_loop_confirmed [OF t' Some, of retries] e2 by simp
      next
        case False
        from extends_trans [OF e2 step(1) [OF t' Some False]] show ?thesis
          using batch_loop_confirmed [OF t' Some, of retries] False by simp
      qed
    qed
  qed
qed

lemma batch_loop_resolves:
  "x \<in> set batch \<Longrightarrow> resolved x (batch_loop env delay retries batch st)"
proof (induction batch st
    rule: batch_loop_induct_steps [where env = env and delay = delay and retries = retries])
  case (step batch st)
  obtain r st1 where t: "try_esummary env delay (BatchCall batch) st = (r, st1)"
    by (cases "try_esummary env delay (BatchCall batch) st")
  show ?case
  proof (cases r)
    case None
    have "BatchCall batch Success \<in> set (trace st1)"
      using t None try_esummary_None_event by blast
    then have "resolved x st1"
      using step(3) by (auto intro: resolved_by_event)
    then show ?thesis
      using t None by (simp add: batch_loop_success)
  next
    case (Some msg)
    note t' = t [unfolded Some]
    show ?thesis
    proof (cases "confirmed_invalid msg batch")
      case None
      show ?thesis
      proof (cases "int (attempt st1 + 1) > retries")
        case True
        then show ?thesis
          using batch_loop_ambiguous [OF t' None, of retries] fallback_resolves [OF step(3)]
          by simp
      next
        case False
        then show ?thesis
          using batch_loop_ambiguous [OF t' None, of retries] step(2) [OF t' None False step(3)]
          by simp
      qed
    next
      case (Some bad_uid)
      let ?st2 = "st1\<lparr>invalid_ids := insert bad_uid (invalid_ids st1)\<rparr>"
      let ?batch' = "filter (\<lambda>x. x \<noteq> bad_uid) batch"
      show ?thesis
      proof (cases "x = bad_uid")
        case True
        have r2: "resolved x ?st2"
          using True by (simp add: resolved_def)
        show ?thesis
        proof (cases "?batch' = []")
          case True
          then show ?thesis
            using batch_loop_confirmed [OF t' Some, of retries] r2 by simp
        next
          case False
          from resolved_extends [OF r2 batch_loop_extends] show ?thesis
            using batch_loop_confirmed [OF t' Some, of retries] False by simp
        qed
      next
        case False
        then have m: "x \<in> set ?batch'"
          using step(3) by simp
        have ne: "?batch' \<noteq> []"
          using m by (metis empty_iff empty_set)
        from step(1) [OF t' Some ne m] show ?thesis
          using batch_loop_confirmed [OF t' Some, of retries] ne by simp
      qed
    qed
  qed
qed

lemma validate_batches_extends: "extends st (validate_batches env delay retries batches st)"
proof (induction batches arbitrary: st)
  case Nil
  show ?case by (simp add: extends_refl)
next
  case (Cons b bs)
  have "extends st (st\<lparr>attempt := 0\<rparr>)"
    by (simp add: extends_def)
  from extends_trans [OF extends_trans [OF this batch_loop_extends] Cons.IH]
  show ?case
    using Cons.IH [of st] by (cases "b = []") simp_all
qed

lemma validate_batches_resolves:
  "x \<in> \<Union> (set ` set batches) \<Longrightarrow>
   resolved x (validate_batches env delay retries batches st)"
proof (induction batches arbitrary: st)
  case Nil
  then show ?case by simp
next
  case (Cons b bs)
  show ?case
  proof (cases "x \<in> \<Union> (set ` set bs)")
    case True
    then show ?thesis
      using Cons.IH by (cases "b = []") simp_all
  next
    case False
    then have m: "x \<in> set b" using Cons.prems by simp
    then have ne: "b \<noteq> []" by auto
    have "resolved x (batch_loop env delay retries b (st\<lparr>attempt := 0\<rparr>))"
      using m by (rule batch_loop_resolves)
    from resolved_extends [OF this validate_batches_extends] show ?thesis
      using ne by simp
  qed
qed

lemma chunker_covers:
  assumes "0 < n" and "x \<in> set seq"
  shows "\<exists>batches. chunker seq n = Inr batches \<and> x \<in> \<Union> (set ` set batches)"
proof -
  from assms(2) obtain j where j: "j < length seq" "seq ! j = x"
    by (auto simp: in_set_conv_nth)
  let ?k = "nat n"
  have k: "0 < ?k" using assms(1) by simp
  let ?i = "j - j mod ?k"
  have i1: "?i mod ?k = 0"
    by (simp add: minus_mod_eq_mult_div)
  have i2: "?i < length seq"
    using j(1) by (meson le_less_trans diff_le_self)
  have i3: "?i \<le> j" by simp
  have i4: "j - ?i < ?k"
    using k by simp
  have "take ?k (drop ?i seq) ! (j - ?i) = x"
    using i3 i4 j by simp
  moreover have "j - ?i < length (take ?k (drop ?i seq))"
    using i3 i4 j(1) by simp
  ultimately have "x \<in> set (take ?k (drop ?i seq))"
    by (metis nth_mem)
  moreover have "?i \<in> set (filter (\<lambda>i. i mod ?k = 0) [0..<length seq])"
    using i1 i2 by simp
  ultimately show ?thesis
    using assms(1) by (auto simp: chunker_def)
qed

text \<open>
  Claim C5 (exhausted retries never abort the run). For every identifier list,
  every sequence of remote outcomes, every delay and every retry limit: the validator
  returns its set whenever the batch size is not zero, so no exception of a remote
  call leaves it; with a positive batch size the run is carried through to its end,
  in that every input identifier has its outcome in the final state, rejected or
  covered by a call that returned, whichever batches exhausted their budget before;
  and whenever the \<open>try\<close> block of a whole-batch call ends with an exception that is
  not a confirmed invalid identifier while the budget is used up, the loop continues
  with the per-identifier fallback on the same batch.
\<close>

theorem exhausted_retries_never_abort:
  "(batch_size \<noteq> 0 \<longrightarrow>
      (\<exists>rejected. validate_ids_with_entrez ids api_key delay retries batch_size env
                    = Inr rejected)) \<and>
   (0 < batch_size \<longrightarrow>
      (\<exists>st. validate_run ids api_key delay retries batch_size env = Inr st \<and>
            (\<forall>x \<in> set ids. resolved x st))) \<and>
   (try_esummary env d (BatchCall batch) st = (Some msg, st1) \<and>
    confirmed_invalid msg batch = None \<and> retries < int (attempt st1) + 1 \<longrightarrow>
      batch_loop env d retries batch st =
      fallback env d batch (st1\<lparr>attempt := attempt st1 + 1\<rparr>))"
proof (intro conjI impI)
  assume "batch_size \<noteq> 0"
  then show "\<exists>rejected. validate_ids_with_entrez ids api_key delay retries batch_size env
                    = Inr rejected"
    by (rule validate_returns)
next
  assume pos: "0 < batch_size"
  then obtain batches where c: "chunker ids batch_size = Inr batches"
    by (auto simp: chunker_def)
  let ?st = "validate_batches env (effective_delay api_key delay) retries batches v_init"
  have r: "validate_run ids api_key delay retries batch_size env = Inr ?st"
    using c by (simp add: validate_run_def)
  have "\<forall>x \<in> set ids. resolved x ?st"
  proof
    fix x assume "x \<in> set ids"
    from chunker_covers [OF pos this] c have "x \<in> \<Union> (set ` set batches)"
      by auto
    then show "resolved x ?st"
      by (rule validate_batches_resolves)
  qed
  with r show "\<exists>st. validate_run ids api_key delay retries batch_size env = Inr st \<and>
            (\<forall>x \<in> set ids. resolved x st)"
    by blast
next
  assume a: "try_esummary env d (BatchCall batch) st = (Some msg, st1) \<and>
    confirmed_invalid msg batch = None \<and> retries < int (attempt st1) + 1"
  then have t: "try_esummary env d (BatchCall batch) st = (Some msg, st1)"
    and c: "confirmed_invalid msg batch = None" and e: "retries < int (attempt st1) + 1"
    by simp_all
  show "batch_loop env d retries batch st =
      fallback env d batch (st1\<lparr>attempt := attempt st1 + 1\<rparr>)"
    using batch_loop_ambiguous [OF t c, of retries] e by simp
qed


theorem stale_report_is_ambiguous_witness:
  "outcomes [Failure ''Invalid uid Z'', Success] (calls v_init) = Failure ''Invalid uid Z'' \<and>
   invalid_uid_search ''Invalid uid Z'' = Some ''Z'' \<and>
   ''Z'' \<notin> set [''A'', ''B''] \<and>
   batch_loop (outcomes [Failure ''Invalid uid Z'', Success]) 0 1 [''A'', ''B''] v_init =
   batch_loop (outcomes [Failure ''Invalid uid Z'', Success]) 0 1 [''A'', ''B'']
     (v_init\<lparr>calls := 1, attempt := 1,
             trace := [BatchCall [''A'', ''B''] (Failure ''Invalid uid Z''), Sleep 3]\<rparr>) \<and>
   ''Z'' \<notin> invalid_ids
     (batch_loop (outcomes [Failure ''Invalid uid Z'', Success]) 0 1 [''A'', ''B''] v_init)"
proof -
  let ?env = "outcomes [Failure ''Invalid uid Z'', Success]"
  have f: "?env (calls v_init) = Failure ''Invalid uid Z''"
    by code_simp
  have u: "invalid_uid_search ''Invalid uid Z'' = Some ''Z''"
    by code_simp
  have n: "''Z'' \<notin> set [''A'', ''B'']"
    by simp
  note th = stale_report_is_ambiguous [where env = ?env and st = v_init, OF f u n, of 0 1]
  have e: "batch_loop ?env 0 1 [''A'', ''B''] v_init =
           batch_loop ?env 0 1 [''A'', ''B'']
             (v_init\<lparr>calls := 1, attempt := 1,
                     trace := [BatchCall [''A'', ''B''] (Failure ''Invalid uid Z''), Sleep 3]\<rparr>)"
    using th [THEN conjunct1] by (simp add: v_init_def)
  have z: "''Z'' \<notin> invalid_ids (batch_loop ?env 0 1 [''A'', ''B''] v_init)"
    using th [THEN conjunct2] by (simp add: v_init_def)
  show ?thesis
    by (intro conjI f u n e z)
qed

theorem exhausted_retries_never_abort_witness:
  "(2::int) \<noteq> 0 \<and> (0::int) < 2 \<and>
   validate_ids_with_entrez [''C'', ''D'', ''E''] None None 1 2
     (outcomes [Failure ''boom'', Failure ''boom'', Success, Failure ''not found'', Success])
     = Inr {''D''} \<and>
   validate_run [''C'', ''D'', ''E''] None None 1 2
     (outcomes [Failure ''boom'', Failure ''boom'', Success, Failure ''not found'', Success])
     = Inr \<lparr>invalid_ids = {''D''}, attempt = 0, calls = 5,
            trace = [BatchCall [''C'', ''D''] (Failure ''boom''), Sleep 3,
                     BatchCall [''C'', ''D''] (Failure ''boom''),
                     SingleCall ''C'' Success, Sleep 0.34,
                     SingleCall ''D'' (Failure ''not found''),
                     BatchCall [''E''] Success, Sleep 0.34]\<rparr> \<and>
   resolved ''C'' \<lparr>invalid_ids = {''D''}, attempt = 0, calls = 5,
            trace = [BatchCall [''C'', ''D''] (Failure ''boom''), Sleep 3,
                     BatchCall [''C'', ''D''] (Failure ''boom''),
                     SingleCall ''C'' Success, Sleep 0.34,
                     SingleCall ''D'' (Failure ''not found''),
                     BatchCall [''E''] Success, Sleep 0.34]\<rparr> \<and>
   resolved ''D'' \<lparr>invalid_ids = {''D''}, attempt = 0, calls = 5,
            trace = [BatchCall [''C'', ''D''] (Failure ''boom''), Sleep 3,
                     BatchCall [''C'', ''D''] (Failure ''boom''),
                     SingleCall ''C'' Success, Sleep 0.34,
                     SingleCall ''D'' (Failure ''not found''),
                     BatchCall [''E''] Success, Sleep 0.34]\<rparr> \<and>
   resolved ''E'' \<lparr>invalid_ids = {''D''}, attempt = 0, calls = 5,
            trace = [BatchCall [''C'', ''D''] (Failure ''boom''), Sleep 3,
                     BatchCall [''C'', ''D''] (Failure ''boom''),
                     SingleCall ''C'' Success, Sleep 0.34,
                     SingleCall ''D'' (Failure ''not found''),
                     BatchCall [''E''] Success, Sleep 0.34]\<rparr> \<and>
   try_esummary (outcomes [Failure ''boom'']) 0 (BatchCall [''C'', ''D'']) v_init =
     (Some ''boom'',
      v_init\<lparr>calls := 1, trace := [BatchCall [''C'', ''D''] (Failure ''boom'')]\<rparr>) \<and>
   confirmed_invalid ''boom'' [''C'', ''D''] = None \<and>
   batch_loop (outcomes [Failure ''boom'']) 0 0 [''C'', ''D''] v_init =
   fallback (outcomes [Failure ''boom'']) 0 [''C'', ''D'']
     (v_init\<lparr>calls := 1, trace := [BatchCall [''C'', ''D''] (Failure ''boom'')],
             attempt := 1\<rparr>)"
proof -
  let ?run_env = "outcomes [Failure ''boom'', Failure ''boom'', Success,
                            Failure ''not found'', Success]"
  let ?final = "\<lparr>invalid_ids = {''D''}, attempt = 0, calls = 5,
            trace = [BatchCall [''C'', ''D''] (Failure ''boom''), Sleep 3,
                     BatchCall [''C'', ''D''] (Failure ''boom''),
                     SingleCall ''C'' Success, Sleep 0.34,
                     SingleCall ''D'' (Failure ''not found''),
                     BatchCall [''E''] Success, Sleep 0.34]\<rparr>"
  let ?env = "outcomes [Failure ''boom'']"
  let ?st1 = "v_init\<lparr>calls := 1, trace := [BatchCall [''C'', ''D''] (Failure ''boom'')]\<rparr>"
  have v: "validate_ids_with_entrez [''C'', ''D'', ''E''] None None 1 2 ?run_env = Inr {''D''}"
    by code_simp
  have r: "validate_run [''C'', ''D'', ''E''] None None 1 2 ?run_env = Inr ?final"
    by code_simp
  have o: "?env (calls v_init) = Failure ''boom''"
    by code_simp
  have t: "try_esummary ?env 0 (BatchCall [''C'', ''D'']) v_init = (Some ''boom'', ?st1)"
    using try_esummary_Failure [where env = ?env and st = v_init, OF o, of 0 "BatchCall [''C'', ''D'']"]
    by (simp add: v_init_def)
  have c: "confirmed_invalid ''boom'' [''C'', ''D''] = None"
    by code_simp
  have e: "(0::int) < int (attempt ?st1) + 1"
    by (simp add: v_init_def)
  have z: "(2::int) \<noteq> 0" and p: "(0::int) < 2" by simp_all
  note th = exhausted_retries_never_abort
    [where batch_size = 2 and ids = "[''C'', ''D'', ''E'']" and api_key = None and delay = None
       and env = ?env and d = 0 and batch = "[''C'', ''D'']"
       and st = v_init and msg = "''boom''" and ?st1.0 = ?st1 and retries = 0]
  note th2 = exhausted_retries_never_abort
    [where batch_size = 2 and ids = "[''C'', ''D'', ''E'']" and api_key = None and delay = None
       and env = ?run_env and retries = 1, THEN conjunct2, THEN conjunct1, rule_format, OF p]
  from th2 r have all: "\<forall>x \<in> set [''C'', ''D'', ''E'']. resolved x ?final"
    by auto
  have rc: "resolved ''C'' ?final" and rd: "resolved ''D'' ?final" and re: "resolved ''E'' ?final"
    using all by simp_all
  from th have b: "batch_loop ?env 0 0 [''C'', ''D''] v_init =
           fallback ?env 0 [''C'', ''D''] (?st1\<lparr>attempt := attempt ?st1 + 1\<rparr>)"
    using t c e by simp
  have b': "batch_loop ?env 0 0 [''C'', ''D''] v_init =
            fallback ?env 0 [''C'', ''D'']
              (v_init\<lparr>calls := 1, trace := [BatchCall [''C'', ''D''] (Failure ''boom'')],
                      attempt := 1\<rparr>)"
    unfolding b by (simp add: v_init_def)
  show ?thesis
    by (intro conjI z p v r rc rd re t c b')
qed






lemma next_is_sleep_append: "next_is_sleep d es \<Longrightarrow> next_is_sleep d (es @ fs)"
  by (cases es) (simp_all add: next_is_sleep_def)

lemma delay_after_success_append:
  "delay_after_success d es \<Longrightarrow> delay_after_success d fs \<Longrightarrow> delay_after_success d (es @ fs)"
  by (induction es) (simp_all add: next_is_sleep_append)

lemma try_batch_delay_after_success:
  assumes "sleep_error delay = None" and "delay_after_success delay (trace st)"
    and "try_esummary env delay (BatchCall b) st = (r, st1)"
  shows "delay_after_success delay (trace st1)"
proof (cases "env (calls st)")
  case Success
  then have "trace st1 = trace st @ [BatchCall b Success, Sleep delay]"
    using assms(1,3) by (auto simp: try_esummary_def Let_def)
  then show ?thesis
    using assms(2) by (simp add: delay_after_success_append next_is_sleep_def)
next
  case (Failure msg)
  then have "trace st1 = trace st @ [BatchCall b (Failure msg)]"
    using assms(3) by (auto simp: try_esummary_def Let_def)
  then show ?thesis
    using assms(2) by (simp add: delay_after_success_append)
qed

lemma try_single_delay_after_success:
  assumes "sleep_error delay = None" and "delay_after_success delay (trace st)"
    and "try_esummary env delay (SingleCall a) st = (r, st1)"
  shows "delay_after_success delay (trace st1)"
proof (cases "env (calls st)")
  case Success
  then have "trace st1 = trace st @ [SingleCall a Success, Sleep delay]"
    using assms(1,3) by (auto simp: try_esummary_def Let_def)
  then show ?thesis
    using assms(2) by (simp add: delay_after_success_append next_is_sleep_def)
next
  case (Failure msg)
  then have "trace st1 = trace st @ [SingleCall a (Failure msg)]"
    using assms(3) by (auto simp: try_esummary_def Let_def)
  then show ?thesis
    using assms(2) by (simp add: delay_after_success_append)
qed

lemma fallback_delay_after_success:
  "sleep_error delay = None \<Longrightarrow> delay_after_success delay (trace st) \<Longrightarrow>
   delay_after_success delay (trace (fallback env delay batch st))"
proof (induction batch arbitrary: st)
  case Nil
  then show ?case by simp
next
  case (Cons acc rest)
  obtain r st1 where t: "try_esummary env delay (SingleCall acc) st = (r, st1)"
    by (cases "try_esummary env delay (SingleCall acc) st")
  have d1: "delay_after_success delay (trace st1)"
    using try_single_delay_after_success [OF Cons.prems(1,2) t] .
  show ?case
  proof (cases r)
    case None
    then show ?thesis
      using t Cons.IH [OF Cons.prems(1) d1] by simp
  next
    case (Some e2)
    have "delay_after_success delay
            (trace (st1\<lparr>invalid_ids := insert acc (invalid_ids st1)\<rparr>))"
      using d1 by simp
    from Cons.IH [OF Cons.prems(1) this] show ?thesis
      using t Some by simp
  qed
qed

lemma batch_loop_delay_after_success:
  assumes "sleep_error delay = None"
  shows "delay_after_success delay (trace st) \<Longrightarrow>
         delay_after_success delay (trace (batch_loop env delay retries batch st))"
proof (induction batch st
    rule: batch_loop_induct_steps [where env = env and delay = delay and retries = retries])
  case (step batch st)
  obtain r st1 where t: "try_esummary env delay (BatchCall batch) st = (r, st1)"
    by (cases "try_esummary env delay (BatchCall batch) st")
  have d1: "delay_after_success delay (trace st1)"
    using try_batch_delay_after_success [OF assms step(3) t] .
  show ?case
  proof (cases r)
    case None
    then show ?thesis
      using t d1 by (simp add: batch_loop_success)
  next
    case (Some msg)
    note t' = t [unfolded Some]
    show ?thesis
    proof (cases "confirmed_invalid msg batch")
      case None
      show ?thesis
      proof (cases "int (attempt st1 + 1) > retries")
        case True
        have "delay_after_success delay (trace (st1\<lparr>attempt := attempt st1 + 1\<rparr>))"
          using d1 by simp
        from fallback_delay_after_success [OF assms this, of env batch] show ?thesis
          using batch_loop_ambiguous [OF t' None, of retries] True by simp
      next
        case False
        have "delay_after_success delay
                (trace (st1\<lparr>attempt := attempt st1 + 1,
                    trace := trace st1 @ [Sleep (real (3 * (attempt st1 + 1)))]\<rparr>))"
          using d1 by (simp add: delay_after_success_append)
        from step(2) [OF t' None False this] show ?thesis
          using batch_loop_ambiguous [OF t' None, of retries] False by simp
      qed
    next
      case (Some bad_uid)
      have d2: "delay_after_success delay
                  (trace (st1\<lparr>invalid_ids := insert bad_uid (invalid_ids st1)\<rparr>))"
        using d1 by simp
      show ?thesis
      proof (cases "filter (\<lambda>x. x \<noteq> bad_uid) batch = []")
        case True
        then show ?thesis
          using batch_loop_confirmed [OF t' Some, of retries] d2 by simp
      next
        case False
        from step(1) [OF t' Some False d2] show ?thesis
          using batch_loop_confirmed [OF t' Some, of retries] False by simp
      qed
    qed
  qed
qed

lemma validate_batches_delay_after_success:
  "sleep_error delay = None \<Longrightarrow> delay_after_success delay (trace st) \<Longrightarrow>
   delay_after_success delay (trace (validate_batches env delay retries batches st))"
proof (induction batches arbitrary: st)
  case Nil
  then show ?case by simp
next
  case (Cons b bs)
  show ?case
  proof (cases "b = []")
    case True
    then show ?thesis using Cons by simp
  next
    case False
    have "delay_after_success delay (trace (st\<lparr>attempt := 0\<rparr>))"
      using Cons.prems(2) by simp
    from batch_loop_delay_after_success [OF Cons.prems(1) this, of env retries b]
    show ?thesis
      using False Cons.IH [OF Cons.prems(1)] by simp
  qed
qed

text \<open>
  Claim C7 (rate limiting after every call), as amended. In every run of the
  validator with a delay that \<open>time.sleep\<close> accepts, each remote call that returned,
  whole-batch or per-identifier, is directly followed by a sleep of the configured
  length, before the next remote call is issued. The
  claim as stated asks for the delay after failed calls as well; that fails, since
  the retry that follows the removal of a confirmed invalid identifier is issued
  without any sleep (shown below on a run with the default delay).
\<close>

theorem rate_limit_after_success:
  assumes "sleep_error (effective_delay api_key delay) = None"
    and "validate_run ids api_key delay retries batch_size env = Inr st"
  shows "delay_after_success (effective_delay api_key delay) (trace st)"
proof -
  from assms(2) obtain batches where
    "st = validate_batches env (effective_delay api_key delay) retries batches v_init"
    by (auto simp: validate_run_def split: sum.splits)
  moreover have "delay_after_success (effective_delay api_key delay) (trace v_init)"
    by (simp add: v_init_def)
  ultimately show ?thesis
    using validate_batches_delay_after_success [OF assms(1)] by simp
qed

theorem rate_limit_counterexample:
  "map_sum id trace
     (validate_run [''A'', ''B''] None None 3 400
        (outcomes [Failure ''Invalid uid B'', Success])) =
   Inr [BatchCall [''A'', ''B''] (Failure ''Invalid uid B''),
        BatchCall [''A''] Success, Sleep (effective_delay None None)] \<and>
   \<not> delay_after_every_call (effective_delay None None)
       [BatchCall [''A'', ''B''] (Failure ''Invalid uid B''),
        BatchCall [''A''] Success, Sleep (effective_delay None None)]"
proof -
  have "map_sum id trace
     (validate_run [''A'', ''B''] None None 3 400
        (outcomes [Failure ''Invalid uid B'', Success])) =
   Inr [BatchCall [''A'', ''B''] (Failure ''Invalid uid B''),
        BatchCall [''A''] Success, Sleep (effective_delay None None)]"
    by code_simp
  then show ?thesis by simp
qed

theorem rate_limit_after_success_witness:
  "sleep_error (effective_delay None None) = None \<and>
   map_sum id trace
     (validate_run [''A'', ''B''] None None 3 400
        (outcomes [Failure ''Invalid uid B'', Success])) =
   Inr [BatchCall [''A'', ''B''] (Failure ''Invalid uid B''),
        BatchCall [''A''] Success, Sleep (effective_delay None None)] \<and>
   delay_after_success (effective_delay None None)
       [BatchCall [''A'', ''B''] (Failure ''Invalid uid B''),
        BatchCall [''A''] Success, Sleep (effective_delay None None)]"
proof -
  let ?run = "validate_run [''A'', ''B''] None None 3 400
        (outcomes [Failure ''Invalid uid B'', Success])"
  let ?tr = "[BatchCall [''A'', ''B''] (Failure ''Invalid uid B''),
        BatchCall [''A''] Success, Sleep (effective_delay None None)]"
  have z: "sleep_error (effective_delay None None) = None"
    by (simp add: effective_delay_def sleep_error_def)
  have m: "map_sum id trace ?run = Inr ?tr"
    by code_simp
  then obtain st where r: "?run = Inr st" and t: "trace st = ?tr"
    by (cases ?run) auto
  from rate_limit_after_success [OF z r] have "delay_after_success (effective_delay None None) ?tr"
    unfolding t .
  then show ?thesis
    using z m by blast
qed

section \<open>The concrete scenario of the specification\<close>

text \<open>
  Identifiers \<open>A, B, C, D\<close> with batch size 2 and retry limit 1. The first batch
  fails with \<open>Invalid uid B\<close> and succeeds without \<open>B\<close>; the second fails ambiguously
  twice and falls back to individual calls, of which the one for \<open>D\<close> fails. The run
  rejects \<open>B\<close> and \<open>D\<close>, and its trace shows where the validator sleeps.
\<close>

lemma specification_scenario:
  "validate_run [''A'', ''B'', ''C'', ''D''] None None 1 2
     (outcomes [Failure ''Invalid uid B'', Success, Failure ''boom'', Failure ''boom'',
                Success, Failure ''not found'']) =
   Inr \<lparr>invalid_ids = {''B'', ''D''}, attempt = 2, calls = 6,
        trace =
          [BatchCall [''A'', ''B''] (Failure ''Invalid uid B''),
           BatchCall [''A''] Success, Sleep 0.34,
           BatchCall [''C'', ''D''] (Failure ''boom''), Sleep 3,
           BatchCall [''C'', ''D''] (Failure ''boom''),
           SingleCall ''C'' Success, Sleep 0.34,
           SingleCall ''D'' (Failure ''not found'')]\<rparr>"
  by code_simp

section \<open>The loop of the metadata fetch compared\<close>

text \<open>
  \<open>esummary_protein\<close> is not part of the validator. On the same service its loop
  differs in the two ways noted at its definition: the removal of a named identifier
  has already used one unit of the retry budget, and an exhausted budget raises the
  last exception. With \<open>retries = 1\<close>, a removal followed by one ambiguous failure
  ends the fetch, while the validator retries and completes.
\<close>

lemma esummary_protein_removal_uses_budget:
  "esummary_protein [''A'', ''B''] 0 1
     (outcomes [Failure ''Invalid uid A'', Failure ''boom'', Success]) = Inl ''boom'' \<and>
   validate_ids_with_entrez [''A'', ''B''] None (Some 0) 1 400
     (outcomes [Failure ''Invalid uid A'', Failure ''boom'', Success]) = Inr {''A''}"
  by code_simp

lemma esummary_protein_reraises:
  "esummary_protein [''C'', ''D''] 0 1
     (outcomes [Failure ''boom'', Failure ''boom'', Success, Failure ''not found''])
   = Inl ''boom'' \<and>
   validate_ids_with_entrez [''C'', ''D''] None (Some 0) 1 400
     (outcomes [Failure ''boom'', Failure ''boom'', Success, Failure ''not found''])
   = Inr {''D''}"
  by code_simp

end
